theory Spec2Isabelle
  imports Complex_Main "HOL-Library.Multiset" "HOL-Library.List_Lexorder"
begin

unbundle bit_operations_syntax

section \<open>Errors raised by the two notebooks\<close>

text \<open>
  Neither notebook raises an exception of its own. The only failures are the ones the
  Python runtime raises: an index out of range (list or array indexing), a division
  by zero (the sort key of the knapsack notebook) and a type error (sorting \<open>None\<close>).
\<close>

datatype error = IndexError | ZeroDivisionError | TypeError

section \<open>Route enumeration (travelling salesman notebook)\<close>

subsection \<open>The distance matrix and the cost of a route\<close>

text \<open>
  \<open>distancias\<close> is a two-dimensional array of 64-bit signed integers, given by its
  rows (in an array all of one length); an entry is an integer from \<open>-2^63\<close> to
  \<open>2^63 - 1\<close>. \<open>N = len(distancias)\<close> is the number of rows.
\<close>

type_synonym matriz = "int list list"

text \<open>One element \<open>distancias[i, j]\<close>; an index outside the array raises.\<close>

definition elemento :: "matriz \<Rightarrow> nat \<Rightarrow> nat \<Rightarrow> error + int" where
  "elemento distancias i j =
     (if i < length distancias \<and> j < length (distancias ! i)
      then Inr (distancias ! i ! j) else Inl IndexError)"

text \<open>
  \<open>distancias[np.array(ruta[:-1]), np.array(ruta[1:])]\<close>: the elements at the paired
  indices, or the error of the first index pair that is out of range.
\<close>

fun indexar :: "matriz \<Rightarrow> (nat \<times> nat) list \<Rightarrow> error + int list" where
  "indexar distancias [] = Inr []"
| "indexar distancias ((i, j) # ps) =
     (case elemento distancias i j of
        Inl e \<Rightarrow> Inl e
      | Inr v \<Rightarrow> (case indexar distancias ps of
                   Inl e \<Rightarrow> Inl e
                 | Inr vs \<Rightarrow> Inr (v # vs)))"

text \<open>
  The array of the notebook holds 64-bit signed integers, and \<open>np.sum\<close> adds them in
  that type: the total is the exact sum wrapped into the range from \<open>-2^63\<close> to
  \<open>2^63 - 1\<close>, and no overflow is reported.
\<close>

definition wrap64 :: "int \<Rightarrow> int" where
  "wrap64 x = (x + 2 ^ 63) mod 2 ^ 64 - 2 ^ 63"

text \<open>\<open>np.sum(distancias[np.array(ruta[:-1]), np.array(ruta[1:])])\<close>\<close>

definition distancia_total :: "matriz \<Rightarrow> nat list \<Rightarrow> error + int" where
  "distancia_total distancias ruta =
     (case indexar distancias (zip (butlast ruta) (tl ruta)) of
        Inl e \<Rightarrow> Inl e
      | Inr vs \<Rightarrow> Inr (wrap64 (sum_list vs)))"

subsection \<open>The permutations, in the order \<open>itertools.permutations\<close> emits them\<close>

text \<open>
  \<open>permutations(iterable, r)\<close> yields the \<open>r\<close>-length arrangements of the pool by
  position: every position of the pool in turn as first element, followed by the
  arrangements of the remaining pool. Without \<open>r\<close>, it is the length of the pool.
\<close>

fun permutations_r :: "nat \<Rightarrow> 'a list \<Rightarrow> 'a list list" where
  "permutations_r 0 pool = [[]]"
| "permutations_r (Suc r) pool =
     concat (map (\<lambda>i. map ((#) (pool ! i))
                          (permutations_r r (take i pool @ drop (Suc i) pool)))
                 [0..<length pool])"

definition permutations :: "'a list \<Rightarrow> 'a list list" where
  "permutations pool = permutations_r (length pool) pool"

subsection \<open>The enumeration loop\<close>

text \<open>
  \<open>distancia_minima\<close> starts as \<open>float('inf')\<close> and holds a total distance afterwards;
  \<open>mejor_ruta\<close> starts as \<open>None\<close>.
\<close>

datatype distancia = Infinito | Finita int

fun menor :: "int \<Rightarrow> distancia \<Rightarrow> bool" where
  "menor t Infinito = True"
| "menor t (Finita m) = (t < m)"

type_synonym mejor_tsp = "nat list option \<times> distancia"

fun recorrer :: "matriz \<Rightarrow> nat list list \<Rightarrow> mejor_tsp \<Rightarrow> error + mejor_tsp" where
  "recorrer distancias [] mejor = Inr mejor"
| "recorrer distancias (permutacion # resto) (mejor_ruta, distancia_minima) =
     (let ruta = 0 # permutacion @ [0] in
      case distancia_total distancias ruta of
        Inl e \<Rightarrow> Inl e
      | Inr t \<Rightarrow>
          if menor t distancia_minima
          then recorrer distancias resto (Some ruta, Finita t)
          else recorrer distancias resto (mejor_ruta, distancia_minima))"

definition tsp :: "matriz \<Rightarrow> error + mejor_tsp" where
  "tsp distancias =
     (let N = length distancias
      in recorrer distancias (permutations [1..<N]) (None, Infinito))"

section \<open>Subset enumeration (knapsack notebook)\<close>

subsection \<open>The items and their ranking\<close>

text \<open>
  \<open>W\<close> holds the weights and \<open>P\<close> the gains, as exact rationals (the notebook's
  \<open>1.5\<close> is \<open>3/2\<close>): sums, quotients and comparisons are exact, without the rounding
  of floating point. \<open>N = len(W)\<close>. An item of \<open>objetos\<close> is the tuple
  \<open>(P[i], W[i], i)\<close>.
\<close>

type_synonym objeto = "rat \<times> rat \<times> nat"

text \<open>\<open>[(P[i], W[i], i) for i in range(N)]\<close>; \<open>P[i]\<close> raises when \<open>P\<close> is shorter than \<open>W\<close>.\<close>

definition listar :: "rat list \<Rightarrow> rat list \<Rightarrow> error + objeto list" where
  "listar P W =
     (let N = length W
      in if N \<le> length P then Inr (map (\<lambda>i. (P ! i, W ! i, i)) [0..<N])
         else Inl IndexError)"

text \<open>The sort key \<open>lambda x: x[0] / x[1]\<close>; Python's division raises on a zero divisor.\<close>

fun clave :: "objeto \<Rightarrow> error + rat" where
  "clave (ganancia, peso, idx) =
     (if peso = 0 then Inl ZeroDivisionError else Inr (ganancia / peso))"

text \<open>
  \<open>sorted\<close> computes the key of every element first, then sorts. With \<open>reverse=True\<close>
  the order is descending by key and still stable (equal keys keep their order), which
  is the stable ascending sort by the negated key.
\<close>

fun claves :: "objeto list \<Rightarrow> error + rat list" where
  "claves [] = Inr []"
| "claves (x # xs) =
     (case clave x of
        Inl e \<Rightarrow> Inl e
      | Inr k \<Rightarrow> (case claves xs of Inl e \<Rightarrow> Inl e | Inr ks \<Rightarrow> Inr (k # ks)))"

definition sorted_reverse :: "objeto list \<Rightarrow> error + objeto list" where
  "sorted_reverse xs =
     (case claves xs of
        Inl e \<Rightarrow> Inl e
      | Inr ks \<Rightarrow> Inr (map snd (sort_key (\<lambda>kx. - fst kx) (zip ks xs))))"

definition ordenar :: "rat list \<Rightarrow> rat list \<Rightarrow> error + objeto list" where
  "ordenar P W =
     (case listar P W of
        Inl e \<Rightarrow> Inl e
      | Inr objs \<Rightarrow> sorted_reverse objs)"

subsection \<open>Evaluating one bit pattern\<close>

text \<open>
  The inner loop \<open>for j in range(N)\<close> over the positions still to visit, with the
  running \<open>(peso_total, ganancia_total, seleccion)\<close>. The \<open>break\<close> returns the running
  values as they are at that moment.
\<close>

type_synonym parcial = "rat \<times> rat \<times> nat list"

fun evaluar :: "rat list \<Rightarrow> objeto list \<Rightarrow> rat \<Rightarrow> nat \<Rightarrow> nat list \<Rightarrow> parcial \<Rightarrow> parcial" where
  "evaluar P objetos C i [] (peso_total, ganancia_total, seleccion) =
     (peso_total, ganancia_total, seleccion)"
| "evaluar P objetos C i (j # js) (peso_total, ganancia_total, seleccion) =
     (if drop_bit j i AND 1 \<noteq> 0
      then (case objetos ! j of (_, peso, idx) \<Rightarrow>
              let peso_total' = peso_total + peso;
                  ganancia_total' = ganancia_total + P ! idx;
                  seleccion' = seleccion @ [idx]
              in if peso_total' > C
                 then (peso_total', ganancia_total', seleccion')
                 else evaluar P objetos C i js (peso_total', ganancia_total', seleccion'))
      else evaluar P objetos C i js (peso_total, ganancia_total, seleccion))"

subsection \<open>The enumeration loop\<close>

text \<open>\<open>mejor_ganancia\<close> starts as \<open>0\<close> and \<open>mejor_combinacion\<close> as \<open>None\<close>.\<close>

type_synonym mejor_mochila = "rat \<times> nat list option"

fun buscar ::
  "rat list \<Rightarrow> objeto list \<Rightarrow> rat \<Rightarrow> nat \<Rightarrow> nat list \<Rightarrow> mejor_mochila \<Rightarrow> mejor_mochila" where
  "buscar P objetos C N [] mejor = mejor"
| "buscar P objetos C N (i # resto) (mejor_ganancia, mejor_combinacion) =
     (case evaluar P objetos C i [0..<N] (0, 0, []) of
        (peso_total, ganancia_total, seleccion) \<Rightarrow>
          if peso_total \<le> C \<and> ganancia_total > mejor_ganancia
          then buscar P objetos C N resto (ganancia_total, Some seleccion)
          else buscar P objetos C N resto (mejor_ganancia, mejor_combinacion))"

definition mochila :: "rat list \<Rightarrow> rat list \<Rightarrow> rat \<Rightarrow> error + mejor_mochila" where
  "mochila P W C =
     (let N = length W
      in case ordenar P W of
           Inl e \<Rightarrow> Inl e
         | Inr objetos \<Rightarrow> Inr (buscar P objetos C N [0..<push_bit N 1] (0, None)))"

subsection \<open>Showing the result\<close>

text \<open>
  The last cell prints \<open>mejor_ganancia\<close> and \<open>sorted(mejor_combinacion)\<close>; \<open>sorted\<close>
  raises on \<open>None\<close>.
\<close>

fun mostrar :: "mejor_mochila \<Rightarrow> error + rat \<times> nat list" where
  "mostrar (mejor_ganancia, None) = Inl TypeError"
| "mostrar (mejor_ganancia, Some mejor_combinacion) =
     Inr (mejor_ganancia, sort mejor_combinacion)"

section \<open>Notions of the specification\<close>

subsection \<open>Routes\<close>

text \<open>A square matrix: every row is as long as the matrix has rows.\<close>

definition cuadrada :: "matriz \<Rightarrow> bool" where
  "cuadrada distancias = (\<forall>fila \<in> set distancias. length fila = length distancias)"

text \<open>
  The total cost of a route \<open>R\<close>: the sum of \<open>distancias[R[k]][R[k+1]]\<close> over every
  pair of consecutive positions of the route, the leg back to the origin included.
\<close>

definition costo_ruta :: "matriz \<Rightarrow> nat list \<Rightarrow> int" where
  "costo_ruta distancias R = (\<Sum>k\<leftarrow>[0..<length R - 1]. distancias ! (R ! k) ! (R ! Suc k))"

text \<open>
  The total as the code computes it: the total cost in 64-bit arithmetic.
\<close>

definition costo_calculado :: "matriz \<Rightarrow> nat list \<Rightarrow> int" where
  "costo_calculado distancias R = wrap64 (costo_ruta distancias R)"

text \<open>A permutation of \<open>{1..N-1}\<close>: each of these indices exactly once.\<close>

definition es_permutacion :: "nat \<Rightarrow> nat list \<Rightarrow> bool" where
  "es_permutacion N p = (distinct p \<and> set p = set [1..<N])"

text \<open>
  A 64-bit value; a matrix of such values; and a matrix on which no closed route
  overflows: the exact total cost of every route \<open>(0, p[0], ..., p[N-2], 0)\<close> is a 64-bit
  value.
\<close>

definition en_int64 :: "int \<Rightarrow> bool" where
  "en_int64 x = (- (2 ^ 63) \<le> x \<and> x < 2 ^ 63)"

definition matriz_int64 :: "matriz \<Rightarrow> bool" where
  "matriz_int64 distancias = (\<forall>fila \<in> set distancias. \<forall>x \<in> set fila. en_int64 x)"

definition sin_desborde :: "matriz \<Rightarrow> bool" where
  "sin_desborde distancias =
     (\<forall>p. es_permutacion (length distancias) p \<longrightarrow>
          en_int64 (costo_ruta distancias (0 # p @ [0])))"

subsection \<open>Subsets of items\<close>

text \<open>
  A subset is a set of original item indices; its aggregate weight and aggregate value
  are the sums of \<open>W[i]\<close> and \<open>P[i]\<close> over it. It is feasible when it holds indices below
  \<open>N\<close> only and its aggregate weight is at most the capacity.
\<close>

definition peso_de :: "rat list \<Rightarrow> nat set \<Rightarrow> rat" where
  "peso_de W S = (\<Sum>i\<in>S. W ! i)"

definition ganancia_de :: "rat list \<Rightarrow> nat set \<Rightarrow> rat" where
  "ganancia_de P S = (\<Sum>i\<in>S. P ! i)"

definition factible :: "rat list \<Rightarrow> rat \<Rightarrow> nat set \<Rightarrow> bool" where
  "factible W C S = (S \<subseteq> {..<length W} \<and> peso_de W S \<le> C)"

subsection \<open>The evaluation without early abandonment\<close>

text \<open>
  The full accumulation of the specification: the inner loop of \<open>evaluar\<close> without its
  \<open>break\<close>, so that every set bit of the pattern is accumulated, and the search that
  evaluates every pattern this way.
\<close>

fun evaluar_completo :: "rat list \<Rightarrow> objeto list \<Rightarrow> nat \<Rightarrow> nat list \<Rightarrow> parcial \<Rightarrow> parcial" where
  "evaluar_completo P objetos i [] (peso_total, ganancia_total, seleccion) =
     (peso_total, ganancia_total, seleccion)"
| "evaluar_completo P objetos i (j # js) (peso_total, ganancia_total, seleccion) =
     (if drop_bit j i AND 1 \<noteq> 0
      then (case objetos ! j of (_, peso, idx) \<Rightarrow>
              evaluar_completo P objetos i js
                (peso_total + peso, ganancia_total + P ! idx, seleccion @ [idx]))
      else evaluar_completo P objetos i js (peso_total, ganancia_total, seleccion))"


subsection \<open>The enumeration without the ranking step\<close>


subsection \<open>Auxiliary notions\<close>

text \<open>
  The positions a pattern selects (by the test of the inner loop), the weight and the
  original index stored in an item, the original indices a pattern selects, and what it
  means for \<open>objetos\<close> to hold the items \<open>(P[i], W[i], i)\<close> in some order.
\<close>

definition posiciones :: "nat \<Rightarrow> nat list \<Rightarrow> nat list" where
  "posiciones i js = filter (\<lambda>j. drop_bit j i AND 1 \<noteq> 0) js"

definition peso_obj :: "objeto \<Rightarrow> rat" where "peso_obj x = fst (snd x)"
definition idx_obj :: "objeto \<Rightarrow> nat" where "idx_obj x = snd (snd x)"

definition es_listado :: "rat list \<Rightarrow> rat list \<Rightarrow> objeto list \<Rightarrow> bool" where
  "es_listado P W objs = (mset objs = mset (map (\<lambda>i. (P ! i, W ! i, i)) [0..<length W]))"

definition seleccion_de :: "objeto list \<Rightarrow> nat \<Rightarrow> nat \<Rightarrow> nat list" where
  "seleccion_de objs i N = map (\<lambda>j. idx_obj (objs ! j)) (posiciones i [0..<N])"

section \<open>Properties of the route enumeration\<close>

lemma es_permutacion_mset: "es_permutacion N p \<longleftrightarrow> mset p = mset [1..<N]"
  unfolding es_permutacion_def
  by (metis distinct_upt set_eq_iff_mset_eq_distinct mset_eq_imp_distinct_iff mset_eq_setD)

lemma mset_quitar:
  "i < length pool \<Longrightarrow> mset pool = add_mset (pool ! i) (mset (take i pool @ drop (Suc i) pool))"
proof -
  assume "i < length pool"
  then have "pool = take i pool @ pool ! i # drop (Suc i) pool"
    by (rule id_take_nth_drop)
  then have "mset pool = mset (take i pool @ pool ! i # drop (Suc i) pool)"
    by simp
  then show ?thesis by simp
qed

lemma permutations_r_iff:
  "length pool = r \<Longrightarrow> q \<in> set (permutations_r r pool) \<longleftrightarrow> mset q = mset pool"
proof (induction r arbitrary: pool q)
  case 0
  then show ?case by simp
next
  case (Suc r)
  have resto: "length (take i pool @ drop (Suc i) pool) = r" if "i < length pool" for i
    using that Suc.prems by simp
  show ?case
  proof
    assume "q \<in> set (permutations_r (Suc r) pool)"
    then obtain i q' where i: "i < length pool" and q: "q = pool ! i # q'"
      and q': "q' \<in> set (permutations_r r (take i pool @ drop (Suc i) pool))"
      by auto
    from q' Suc.IH [OF resto [OF i]] have "mset q' = mset (take i pool @ drop (Suc i) pool)"
      by simp
    with q mset_quitar [OF i] show "mset q = mset pool" by simp
  next
    assume m: "mset q = mset pool"
    from Suc.prems m have "q \<noteq> []" by auto
    then obtain x q' where q: "q = x # q'" by (cases q) auto
    with m have "x \<in> set pool" by (metis list.set_intros(1) mset_eq_setD)
    then obtain i where i: "i < length pool" and x: "x = pool ! i"
      by (auto simp: in_set_conv_nth)
    from m q x mset_quitar [OF i] have "mset q' = mset (take i pool @ drop (Suc i) pool)"
      by simp
    with Suc.IH [OF resto [OF i]] have "q' \<in> set (permutations_r r (take i pool @ drop (Suc i) pool))"
      by simp
    with i q x show "q \<in> set (permutations_r (Suc r) pool)"
      by auto
  qed
qed

lemma set_permutations: "set (permutations pool) = {q. mset q = mset pool}"
  by (auto simp: permutations_def permutations_r_iff)

lemma set_permutations_upt: "q \<in> set (permutations [1..<N]) \<longleftrightarrow> es_permutacion N q"
  by (simp add: set_permutations es_permutacion_mset)

lemma sorted_wrt_concat:
  "sorted_wrt R (concat xss) \<longleftrightarrow>
     (\<forall>xs \<in> set xss. sorted_wrt R xs) \<and>
     sorted_wrt (\<lambda>xs ys. \<forall>x \<in> set xs. \<forall>y \<in> set ys. R x y) xss"
  by (induction xss) (auto simp: sorted_wrt_append)

lemma sorted_wrt_quitar:
  assumes "sorted_wrt R pool"
  shows "sorted_wrt R (take i pool @ drop (Suc i) pool)"
proof (cases "i < length pool")
  case True
  then have "pool = take i pool @ pool ! i # drop (Suc i) pool"
    by (rule id_take_nth_drop)
  with assms have "sorted_wrt R (take i pool @ pool ! i # drop (Suc i) pool)"
    by simp
  then show ?thesis
    by (auto simp: sorted_wrt_append)
next
  case False
  with assms show ?thesis by simp
qed

lemma permutations_r_lex:
  fixes pool :: "('a :: linorder) list"
  shows "length pool = r \<Longrightarrow> sorted_wrt (<) pool \<Longrightarrow> sorted_wrt (<) (permutations_r r pool)"
proof (induction r arbitrary: pool)
  case 0
  then show ?case by simp
next
  case (Suc r)
  have bloque: "sorted_wrt (<) (map ((#) (pool ! i)) (permutations_r r (take i pool @ drop (Suc i) pool)))"
    if "i < length pool" for i
  proof -
    from that Suc.prems have "length (take i pool @ drop (Suc i) pool) = r" by simp
    then have "sorted_wrt (<) (permutations_r r (take i pool @ drop (Suc i) pool))"
      using Suc.IH sorted_wrt_quitar [OF Suc.prems(2)] by blast
    then show ?thesis
      by (simp add: sorted_wrt_map)
  qed
  have entre: "sorted_wrt (\<lambda>i j. pool ! i < pool ! j) [0..<length pool]"
  proof (rule sorted_wrt_mono_rel [of _ "(<)"])
    fix i j assume "i \<in> set [0..<length pool]" "j \<in> set [0..<length pool]" "i < j"
    then show "pool ! i < pool ! j"
      using Suc.prems(2) by (simp add: sorted_wrt_nth_less)
  qed simp
  have "sorted_wrt (\<lambda>i j. \<forall>x \<in> set (map ((#) (pool ! i)) (permutations_r r (take i pool @ drop (Suc i) pool))).
                          \<forall>y \<in> set (map ((#) (pool ! j)) (permutations_r r (take j pool @ drop (Suc j) pool))). x < y)
          [0..<length pool]"
    by (rule sorted_wrt_mono_rel [OF _ entre]) auto
  with bloque show ?case
    by (simp add: sorted_wrt_concat sorted_wrt_map)
qed

lemma permutations_upt_lex: "sorted_wrt (<) (permutations [1..<N])"
  unfolding permutations_def by (rule permutations_r_lex) simp_all


lemma indexar_ok:
  "\<forall>(i, j) \<in> set ps. i < length d \<and> j < length (d ! i) \<Longrightarrow>
     indexar d ps = Inr (map (\<lambda>(i, j). d ! i ! j) ps)"
  by (induction ps) (auto simp: elemento_def)

lemma indexar_error:
  "(i, j) \<in> set ps \<Longrightarrow> \<not> (i < length d \<and> j < length (d ! i)) \<Longrightarrow>
     indexar d ps = Inl IndexError"
proof (induction ps)
  case Nil
  then show ?case by simp
next
  case (Cons a ps)
  obtain i' j' where a: "a = (i', j')" by (cases a)
  show ?case
  proof (cases "i' < length d \<and> j' < length (d ! i')")
    case False
    with a show ?thesis by (auto simp: elemento_def)
  next
    case True
    with Cons.prems a have "(i, j) \<in> set ps" by auto
    with Cons have "indexar d ps = Inl IndexError" by simp
    with True a show ?thesis by (simp add: elemento_def)
  qed
qed

lemma sum_list_zip_consecutivos:
  "R \<noteq> [] \<Longrightarrow> (\<Sum>(i, j)\<leftarrow>zip (butlast R) (tl R). f i j) = (\<Sum>k\<leftarrow>[0..<length R - 1]. f (R ! k) (R ! Suc k))"
proof -
  assume "R \<noteq> []"
  have "zip (butlast R) (tl R) = map (\<lambda>k. (R ! k, R ! Suc k)) [0..<length R - 1]"
    by (rule nth_equalityI) (auto simp: nth_butlast nth_tl)
  then show ?thesis
    by (simp add: comp_def)
qed

lemma distancia_total_ok:
  assumes "\<forall>fila \<in> set d. length d \<le> length fila" and "set R \<subseteq> {..<length d}" and "R \<noteq> []"
  shows "distancia_total d R = Inr (costo_calculado d R)"
proof -
  have "\<forall>(i, j) \<in> set (zip (butlast R) (tl R)). i < length d \<and> j < length (d ! i)"
  proof clarify
    fix i j assume "(i, j) \<in> set (zip (butlast R) (tl R))"
    then have "i \<in> set (butlast R)" and "j \<in> set (tl R)"
      by (auto dest: set_zip_leftD set_zip_rightD)
    then have "i \<in> set R" and "j \<in> set R"
      by (auto dest: in_set_butlastD list.set_sel(2) [OF \<open>R \<noteq> []\<close>])
    with assms(2) have i: "i < length d" and j: "j < length d" by auto
    from i assms(1) have "length d \<le> length (d ! i)" by simp
    with i j show "i < length d \<and> j < length (d ! i)" by simp
  qed
  then have "indexar d (zip (butlast R) (tl R)) = Inr (map (\<lambda>(i, j). d ! i ! j) (zip (butlast R) (tl R)))"
    by (rule indexar_ok)
  then show ?thesis
    using sum_list_zip_consecutivos [OF \<open>R \<noteq> []\<close>, of "\<lambda>i j. d ! i ! j"]
    by (simp add: distancia_total_def costo_calculado_def costo_ruta_def)
qed

lemma set_ruta:
  "es_permutacion N p \<Longrightarrow> 0 < N \<Longrightarrow> set (0 # p @ [0]) = {..<N}"
  by (auto simp: es_permutacion_def)

lemma recorrer_primero_minimo:
  assumes "\<forall>q \<in> set qs. distancia_total d (0 # q @ [0]) = Inr (costo_calculado d (0 # q @ [0]))"
  shows "(recorrer d qs (r0, m0) = Inr (r0, m0) \<and>
            (\<forall>q \<in> set qs. \<not> menor (costo_calculado d (0 # q @ [0])) m0)) \<or>
         (\<exists>ps p qs'. qs = ps @ p # qs' \<and>
            recorrer d qs (r0, m0) = Inr (Some (0 # p @ [0]), Finita (costo_calculado d (0 # p @ [0]))) \<and>
            menor (costo_calculado d (0 # p @ [0])) m0 \<and>
            (\<forall>q \<in> set ps. costo_calculado d (0 # p @ [0]) < costo_calculado d (0 # q @ [0])) \<and>
            (\<forall>q \<in> set qs'. costo_calculado d (0 # p @ [0]) \<le> costo_calculado d (0 # q @ [0])))"
  using assms
proof (induction qs arbitrary: r0 m0)
  case Nil
  then show ?case by simp
next
  case (Cons q qs)
  let ?c = "\<lambda>q. costo_calculado d (0 # q @ [0])"
  from Cons.prems have dq: "distancia_total d (0 # q @ [0]) = Inr (?c q)"
    and resto: "\<forall>q \<in> set qs. distancia_total d (0 # q @ [0]) = Inr (?c q)"
    by simp_all
  show ?case
  proof (cases "menor (?c q) m0")
    case True
    then have paso: "recorrer d (q # qs) (r0, m0) = recorrer d qs (Some (0 # q @ [0]), Finita (?c q))"
      using dq by (simp add: Let_def)
    from Cons.IH [OF resto, of "Some (0 # q @ [0])" "Finita (?c q)"]
    show ?thesis
    proof (elim disjE conjE exE)
      assume "recorrer d qs (Some (0 # q @ [0]), Finita (?c q)) = Inr (Some (0 # q @ [0]), Finita (?c q))"
        and "\<forall>q' \<in> set qs. \<not> menor (?c q') (Finita (?c q))"
      with paso True have "q # qs = [] @ q # qs \<and>
            recorrer d (q # qs) (r0, m0) = Inr (Some (0 # q @ [0]), Finita (?c q)) \<and>
            menor (?c q) m0 \<and>
            (\<forall>q' \<in> set []. ?c q < ?c q') \<and>
            (\<forall>q' \<in> set qs. ?c q \<le> ?c q')"
        by (auto simp: not_less)
      then show ?thesis by blast
    next
      fix ps p qs'
      assume h: "qs = ps @ p # qs'"
        "recorrer d qs (Some (0 # q @ [0]), Finita (?c q)) = Inr (Some (0 # p @ [0]), Finita (?c p))"
        "menor (?c p) (Finita (?c q))"
        "\<forall>q' \<in> set ps. ?c p < ?c q'" "\<forall>q' \<in> set qs'. ?c p \<le> ?c q'"
      from h(3) True have "menor (?c p) m0" by (cases m0) auto
      with h paso have "q # qs = (q # ps) @ p # qs' \<and>
            recorrer d (q # qs) (r0, m0) = Inr (Some (0 # p @ [0]), Finita (?c p)) \<and>
            menor (?c p) m0 \<and>
            (\<forall>q' \<in> set (q # ps). ?c p < ?c q') \<and>
            (\<forall>q' \<in> set qs'. ?c p \<le> ?c q')"
        by auto
      then show ?thesis by blast
    qed
  next
    case False
    then have paso: "recorrer d (q # qs) (r0, m0) = recorrer d qs (r0, m0)"
      using dq by (simp add: Let_def)
    from Cons.IH [OF resto, of r0 m0]
    show ?thesis
    proof (elim disjE conjE exE)
      assume "recorrer d qs (r0, m0) = Inr (r0, m0)" and "\<forall>q' \<in> set qs. \<not> menor (?c q') m0"
      with paso False show ?thesis by auto
    next
      fix ps p qs'
      assume h: "qs = ps @ p # qs'"
        "recorrer d qs (r0, m0) = Inr (Some (0 # p @ [0]), Finita (?c p))"
        "menor (?c p) m0"
        "\<forall>q' \<in> set ps. ?c p < ?c q'" "\<forall>q' \<in> set qs'. ?c p \<le> ?c q'"
      from h(3) False have "?c p < ?c q" by (cases m0) auto
      with h paso have "q # qs = (q # ps) @ p # qs' \<and>
            recorrer d (q # qs) (r0, m0) = Inr (Some (0 # p @ [0]), Finita (?c p)) \<and>
            menor (?c p) m0 \<and>
            (\<forall>q' \<in> set (q # ps). ?c p < ?c q') \<and>
            (\<forall>q' \<in> set qs'. ?c p \<le> ?c q')"
        by auto
      then show ?thesis by blast
    qed
  qed
qed

lemma tsp_primero_minimo:
  assumes "distancias \<noteq> []" and "\<forall>fila \<in> set distancias. length distancias \<le> length fila"
  shows "\<exists>ps p qs. permutations [1..<length distancias] = ps @ p # qs \<and>
           tsp distancias = Inr (Some (0 # p @ [0]), Finita (costo_calculado distancias (0 # p @ [0]))) \<and>
           (\<forall>q \<in> set ps. costo_calculado distancias (0 # p @ [0]) < costo_calculado distancias (0 # q @ [0])) \<and>
           (\<forall>q \<in> set qs. costo_calculado distancias (0 # p @ [0]) \<le> costo_calculado distancias (0 # q @ [0]))"
proof -
  let ?N = "length distancias"
  from assms(1) have N: "0 < ?N" by simp
  have def: "\<forall>q \<in> set (permutations [1..<?N]).
      distancia_total distancias (0 # q @ [0]) = Inr (costo_calculado distancias (0 # q @ [0]))"
  proof
    fix q assume "q \<in> set (permutations [1..<?N])"
    then have "es_permutacion ?N q" by (simp only: set_permutations_upt)
    then have "set (0 # q @ [0]) \<subseteq> {..<?N}" using set_ruta [OF _ N] by blast
    then show "distancia_total distancias (0 # q @ [0]) = Inr (costo_calculado distancias (0 # q @ [0]))"
      using distancia_total_ok [OF assms(2)] by blast
  qed
  have "[1..<?N] \<in> set (permutations [1..<?N])" by (simp only: set_permutations mem_Collect_eq)
  then have "\<exists>q \<in> set (permutations [1..<?N]). menor (costo_calculado distancias (0 # q @ [0])) Infinito"
    by auto
  with recorrer_primero_minimo [OF def, of None Infinito] show ?thesis
    unfolding tsp_def Let_def by blast
qed


lemma cuadrada_filas: "cuadrada d \<Longrightarrow> \<forall>fila \<in> set d. length d \<le> length fila"
  by (simp add: cuadrada_def)

lemma wrap64_id: "en_int64 x \<Longrightarrow> wrap64 x = x"
  by (simp add: en_int64_def wrap64_def)

lemma sin_desborde_costo:
  "sin_desborde d \<Longrightarrow> es_permutacion (length d) q \<Longrightarrow>
     costo_calculado d (0 # q @ [0]) = costo_ruta d (0 # q @ [0])"
  by (simp add: sin_desborde_def costo_calculado_def wrap64_id)

lemma sum_list_acotada:
  fixes f :: "'a \<Rightarrow> int"
  shows "\<forall>x \<in> set xs. 0 \<le> f x \<and> f x \<le> B \<Longrightarrow>
    0 \<le> sum_list (map f xs) \<and> sum_list (map f xs) \<le> int (length xs) * B"
  by (induction xs) (auto simp: algebra_simps)

lemma sin_desborde_acotada:
  assumes "d \<noteq> []" and "cuadrada d"
    and "\<forall>fila \<in> set d. \<forall>x \<in> set fila. 0 \<le> x \<and> x \<le> B"
    and "int (length d) * B < 2 ^ 63"
  shows "sin_desborde d"
  unfolding sin_desborde_def
proof (intro allI impI)
  fix p assume p: "es_permutacion (length d) p"
  let ?N = "length d"
  let ?R = "0 # p @ [0]"
  from assms(1) have N: "0 < ?N" by simp
  from p have "mset p = mset [1..<?N]" by (simp only: es_permutacion_mset)
  then have "length p = length [1..<?N]" by (rule mset_eq_length)
  with N have len: "length ?R - 1 = ?N" by simp
  have "\<forall>k \<in> set [0..<length ?R - 1]. 0 \<le> d ! (?R ! k) ! (?R ! Suc k) \<and> d ! (?R ! k) ! (?R ! Suc k) \<le> B"
  proof
    fix k assume "k \<in> set [0..<length ?R - 1]"
    with len have k: "k < length ?R" "Suc k < length ?R" by simp_all
    then have "?R ! k \<in> set ?R" "?R ! Suc k \<in> set ?R" by (simp_all only: nth_mem)
    with set_ruta [OF p N] have i: "?R ! k < ?N" and j: "?R ! Suc k < ?N" by auto
    from i have fila: "d ! (?R ! k) \<in> set d" by simp
    with assms(2) have "length (d ! (?R ! k)) = ?N" by (simp add: cuadrada_def)
    with j have "d ! (?R ! k) ! (?R ! Suc k) \<in> set (d ! (?R ! k))" by simp
    with fila assms(3) show "0 \<le> d ! (?R ! k) ! (?R ! Suc k) \<and> d ! (?R ! k) ! (?R ! Suc k) \<le> B"
      by blast
  qed
  then have "0 \<le> costo_ruta d ?R \<and> costo_ruta d ?R \<le> int (length [0..<length ?R - 1]) * B"
    unfolding costo_ruta_def by (rule sum_list_acotada)
  moreover from len have "int (length [0..<length ?R - 1]) = int ?N" by simp
  ultimately have "0 \<le> costo_ruta d ?R \<and> costo_ruta d ?R \<le> int ?N * B"
    by (simp only:)
  with assms(4) show "en_int64 (costo_ruta d ?R)"
    by (simp add: en_int64_def)
qed

subsection \<open>The returned cost is the optimum of the closed tour\<close>

text \<open>
  Claim C1, as amended. For every square matrix of 64-bit integers of size \<open>N \<ge> 1\<close> on
  which no closed route overflows (the exact total cost of every route is below \<open>2^63\<close>
  in absolute value), the enumeration returns a route and a cost, and the cost is the
  minimum, over all permutations \<open>p\<close> of \<open>{1..N-1}\<close>, of the total cost of the closed route
  \<open>(0, p[0], ..., p[N-2], 0)\<close>: it is the total cost of the returned route, and no
  permutation costs less. Neither the sign of the entries nor the diagonal matters.
\<close>

theorem tsp_costo_minimo:
  assumes "distancias \<noteq> []" and "cuadrada distancias"
    and "matriz_int64 distancias" and "sin_desborde distancias"
  shows "\<exists>ruta c. tsp distancias = Inr (Some ruta, Finita c) \<and>
           (\<exists>p. es_permutacion (length distancias) p \<and> ruta = 0 # p @ [0] \<and>
                costo_ruta distancias ruta = c) \<and>
           (\<forall>q. es_permutacion (length distancias) q \<longrightarrow>
                c \<le> costo_ruta distancias (0 # q @ [0]))"
proof -
  let ?N = "length distancias"
  let ?c = "\<lambda>q. costo_calculado distancias (0 # q @ [0])"
  let ?e = "\<lambda>q. costo_ruta distancias (0 # q @ [0])"
  from tsp_primero_minimo [OF assms(1) cuadrada_filas [OF assms(2)]]
  obtain ps p qs where perms: "permutations [1..<?N] = ps @ p # qs"
    and res: "tsp distancias = Inr (Some (0 # p @ [0]), Finita (?c p))"
    and antes: "\<forall>q \<in> set ps. ?c p < ?c q" and despues: "\<forall>q \<in> set qs. ?c p \<le> ?c q"
    by blast
  from perms have "p \<in> set (permutations [1..<?N])" by simp
  then have p: "es_permutacion ?N p" by (simp only: set_permutations_upt)
  have exacto: "?c q = ?e q" if "es_permutacion ?N q" for q
    using sin_desborde_costo [OF assms(4) that] .
  have "?e p \<le> ?e q" if q: "es_permutacion ?N q" for q
  proof -
    from q have "q \<in> set (ps @ p # qs)"
      by (simp only: set_permutations_upt flip: perms)
    with antes despues have "?c p \<le> ?c q" by auto
    with exacto [OF p] exacto [OF q] show ?thesis by simp
  qed
  with res p exacto [OF p] show ?thesis by auto
qed

text \<open>The matrix of the notebook: cost 80, not above the cost of \<open>(0, 3, 1, 2, 0)\<close>.\<close>

theorem tsp_costo_minimo_witness:
  "\<exists>ruta c. tsp [[0, 10, 15, 20], [10, 0, 35, 25], [15, 35, 0, 30], [20, 25, 30, 0]]
               = Inr (Some ruta, Finita c) \<and> c = 80 \<and>
     c \<le> costo_ruta [[0, 10, 15, 20], [10, 0, 35, 25], [15, 35, 0, 30], [20, 25, 30, 0]]
            (0 # [3, 1, 2] @ [0])"
proof -
  let ?M = "[[0, 10, 15, 20], [10, 0, 35, 25], [15, 35, 0, 30], [20, 25, 30, 0 :: int]]"
  have h1: "?M \<noteq> []" by simp
  have h2: "cuadrada ?M" by (simp add: cuadrada_def)
  have h3: "matriz_int64 ?M" by (simp add: matriz_int64_def en_int64_def)
  have "\<forall>fila \<in> set ?M. \<forall>x \<in> set fila. 0 \<le> x \<and> x \<le> 35" by simp
  moreover have "int (length ?M) * 35 < 2 ^ 63" by simp
  ultimately have h4: "sin_desborde ?M" by (rule sin_desborde_acotada [OF h1 h2])
  have h5: "es_permutacion (length ?M) [3, 1, 2]" by code_simp
  have v: "tsp ?M = Inr (Some [0, 1, 3, 2, 0], Finita 80)" by code_simp
  from tsp_costo_minimo [OF h1 h2 h3 h4] obtain ruta c where
    r: "tsp ?M = Inr (Some ruta, Finita c)"
    and m: "\<forall>q. es_permutacion (length ?M) q \<longrightarrow> c \<le> costo_ruta ?M (0 # q @ [0])"
    by blast
  from m h5 have "c \<le> costo_ruta ?M (0 # [3, 1, 2] @ [0])" by blast
  moreover from r v have "c = 80" by simp
  ultimately show ?thesis using r by blast
qed

text \<open>
  A square matrix of 64-bit integers with non-negative entries and a zero diagonal. The
  route \<open>(0, 1, 2, 0)\<close> costs \<open>2^62 + 2^62 + 0 = 2^63\<close>, which the 64-bit sum wraps to
  \<open>-2^63\<close>; the enumeration returns this route and this number, while the route
  \<open>(0, 2, 1, 0)\<close> costs 3.
\<close>

theorem tsp_costo_counterexample:
  "cuadrada [[0, 2 ^ 62, 1], [1, 0, 2 ^ 62], [0, 1, 0]] \<and>
   matriz_int64 [[0, 2 ^ 62, 1], [1, 0, 2 ^ 62], [0, 1, 0]] \<and>
   tsp [[0, 2 ^ 62, 1], [1, 0, 2 ^ 62], [0, 1, 0]]
     = Inr (Some [0, 1, 2, 0], Finita (- (2 ^ 63))) \<and>
   costo_ruta [[0, 2 ^ 62, 1], [1, 0, 2 ^ 62], [0, 1, 0]] [0, 1, 2, 0] = 2 ^ 63 \<and>
   es_permutacion 3 [2, 1] \<and>
   costo_ruta [[0, 2 ^ 62, 1], [1, 0, 2 ^ 62], [0, 1, 0]] (0 # [2, 1] @ [0]) = 3"
  by code_simp

subsection \<open>The returned route is a closed tour\<close>

text \<open>
  Claim C3. For every square matrix of size \<open>N \<ge> 1\<close> the returned route has length
  \<open>N + 1\<close>, its first and last elements are the origin \<open>0\<close>, and its interior holds each
  index of \<open>{1..N-1}\<close> exactly once.
\<close>

theorem tsp_ruta_valida:
  assumes "distancias \<noteq> []" and "cuadrada distancias"
  shows "\<exists>ruta c. tsp distancias = Inr (Some ruta, c) \<and>
           length ruta = length distancias + 1 \<and> hd ruta = 0 \<and> last ruta = 0 \<and>
           distinct (butlast (tl ruta)) \<and> set (butlast (tl ruta)) = {1..<length distancias}"
proof -
  let ?N = "length distancias"
  from tsp_primero_minimo [OF assms(1) cuadrada_filas [OF assms(2)]]
  obtain ps p qs where perms: "permutations [1..<?N] = ps @ p # qs"
    and res: "tsp distancias = Inr (Some (0 # p @ [0]), Finita (costo_calculado distancias (0 # p @ [0])))"
    by blast
  from perms have "p \<in> set (permutations [1..<?N])" by simp
  then have p: "es_permutacion ?N p" by (simp only: set_permutations_upt)
  then have "mset p = mset [1..<?N]" by (simp only: es_permutacion_mset)
  then have "length p = length [1..<?N]" by (rule mset_eq_length)
  moreover from assms(1) have "0 < ?N" by simp
  ultimately have "length (0 # p @ [0]) = ?N + 1" by simp
  moreover have "butlast (tl (0 # p @ [0])) = p" by (simp add: butlast_append)
  ultimately show ?thesis using res p by (auto simp: es_permutacion_def)
qed

theorem tsp_ruta_valida_witness:
  "\<exists>ruta c. tsp [[0, 10, 15, 20], [10, 0, 35, 25], [15, 35, 0, 30], [20, 25, 30, 0]]
               = Inr (Some ruta, c) \<and> ruta = [0, 1, 3, 2, 0] \<and>
     length ruta = 5 \<and> hd ruta = 0 \<and> last ruta = 0 \<and> distinct (butlast (tl ruta))"
proof -
  let ?M = "[[0, 10, 15, 20], [10, 0, 35, 25], [15, 35, 0, 30], [20, 25, 30, 0 :: int]]"
  have h1: "?M \<noteq> []" by simp
  have h2: "cuadrada ?M" by (simp add: cuadrada_def)
  have v: "tsp ?M = Inr (Some [0, 1, 3, 2, 0], Finita 80)" by code_simp
  from tsp_ruta_valida [OF h1 h2] obtain ruta c where
    r: "tsp ?M = Inr (Some ruta, c)" and l: "length ruta = length ?M + 1"
    and h: "hd ruta = 0" "last ruta = 0" and s: "distinct (butlast (tl ruta))"
    by blast
  from r v have "ruta = [0, 1, 3, 2, 0]" by simp
  moreover from l have "length ruta = 5" by simp
  ultimately show ?thesis using r h s by blast
qed

subsection \<open>Ties: the first route in enumeration order is kept\<close>

text \<open>
  Claim C6, as amended. The permutations are enumerated in strictly increasing
  lexicographic order, and the best is replaced on a strictly lower computed total only.
  For every square matrix of 64-bit integers of size \<open>N \<ge> 1\<close> the returned route is the
  one of a permutation \<open>p\<close> such that every permutation enumerated before \<open>p\<close> has a
  strictly greater computed total and every one enumerated after has one at least as
  great; so \<open>p\<close> is the lexicographically least permutation that reaches the minimum of
  the totals as the code computes them (64-bit sums, which wrap). When no closed route
  overflows, the computed totals are the total costs, and \<open>p\<close> is the lexicographically
  least permutation that reaches the minimum cost.
\<close>

theorem tsp_primero_gana:
  assumes "distancias \<noteq> []" and "cuadrada distancias" and "matriz_int64 distancias"
  shows "\<exists>ps p qs c. permutations [1..<length distancias] = ps @ p # qs \<and>
           sorted_wrt (<) (permutations [1..<length distancias]) \<and>
           tsp distancias = Inr (Some (0 # p @ [0]), Finita c) \<and>
           c = costo_calculado distancias (0 # p @ [0]) \<and>
           (\<forall>q \<in> set ps. c < costo_calculado distancias (0 # q @ [0])) \<and>
           (\<forall>q \<in> set qs. c \<le> costo_calculado distancias (0 # q @ [0])) \<and>
           (\<forall>q. es_permutacion (length distancias) q \<and>
                costo_calculado distancias (0 # q @ [0]) = c \<longrightarrow> p \<le> q) \<and>
           (sin_desborde distancias \<longrightarrow>
              c = costo_ruta distancias (0 # p @ [0]) \<and>
              (\<forall>q. es_permutacion (length distancias) q \<longrightarrow>
                   c \<le> costo_ruta distancias (0 # q @ [0])) \<and>
              (\<forall>q. es_permutacion (length distancias) q \<and>
                   costo_ruta distancias (0 # q @ [0]) = c \<longrightarrow> p \<le> q))"
proof -
  let ?N = "length distancias"
  let ?c = "\<lambda>q. costo_calculado distancias (0 # q @ [0])"
  let ?e = "\<lambda>q. costo_ruta distancias (0 # q @ [0])"
  from tsp_primero_minimo [OF assms(1) cuadrada_filas [OF assms(2)]]
  obtain ps p qs where perms: "permutations [1..<?N] = ps @ p # qs"
    and res: "tsp distancias = Inr (Some (0 # p @ [0]), Finita (?c p))"
    and antes: "\<forall>q \<in> set ps. ?c p < ?c q" and despues: "\<forall>q \<in> set qs. ?c p \<le> ?c q"
    by blast
  from perms have "p \<in> set (permutations [1..<?N])" by simp
  then have p: "es_permutacion ?N p" by (simp only: set_permutations_upt)
  have orden: "sorted_wrt (<) (permutations [1..<?N])" by (rule permutations_upt_lex)
  then have "sorted_wrt (<) (ps @ p # qs)" by (simp only: perms)
  then have tras: "\<forall>q \<in> set qs. p < q" by (auto simp: sorted_wrt_append)
  have todos: "q \<in> set ps \<or> q = p \<or> q \<in> set qs" if "es_permutacion ?N q" for q
  proof -
    from that have "q \<in> set (ps @ p # qs)"
      by (simp only: set_permutations_upt flip: perms)
    then show ?thesis by auto
  qed
  have primero: "p \<le> q" if "es_permutacion ?N q" and "?c q = ?c p" for q
    using todos [OF that(1)] antes that(2) tras by auto
  have minimo: "?c p \<le> ?c q" if "es_permutacion ?N q" for q
    using todos [OF that] antes despues by auto
  have exacto: "c = ?e p \<and> (\<forall>q. es_permutacion ?N q \<longrightarrow> c \<le> ?e q) \<and>
      (\<forall>q. es_permutacion ?N q \<and> ?e q = c \<longrightarrow> p \<le> q)"
    if s: "sin_desborde distancias" and c: "c = ?c p" for c
  proof -
    have eq: "?c q = ?e q" if "es_permutacion ?N q" for q
      using sin_desborde_costo [OF s that] .
    from c eq [OF p] have "c = ?e p" by simp
    moreover have "\<forall>q. es_permutacion ?N q \<longrightarrow> c \<le> ?e q"
      using minimo eq c by auto
    moreover have "\<forall>q. es_permutacion ?N q \<and> ?e q = c \<longrightarrow> p \<le> q"
      using primero eq c by auto
    ultimately show ?thesis by blast
  qed
  from perms orden res antes despues primero exacto show ?thesis by blast
qed

text \<open>
  On the symmetric matrix of the notebook \<open>(0, 1, 3, 2, 0)\<close> and its reverse
  \<open>(0, 2, 3, 1, 0)\<close> both cost 80; the first one is returned.
\<close>

theorem tsp_primero_gana_witness:
  "\<exists>p c. tsp [[0, 10, 15, 20], [10, 0, 35, 25], [15, 35, 0, 30], [20, 25, 30, 0]]
               = Inr (Some (0 # p @ [0]), Finita c) \<and> p = [1, 3, 2] \<and>
     costo_ruta [[0, 10, 15, 20], [10, 0, 35, 25], [15, 35, 0, 30], [20, 25, 30, 0]]
       (0 # [2, 3, 1] @ [0]) = c \<and> p \<le> [2, 3, 1]"
proof -
  let ?M = "[[0, 10, 15, 20], [10, 0, 35, 25], [15, 35, 0, 30], [20, 25, 30, 0 :: int]]"
  have h1: "?M \<noteq> []" by simp
  have h2: "cuadrada ?M" by (simp add: cuadrada_def)
  have h3: "matriz_int64 ?M" by (simp add: matriz_int64_def en_int64_def)
  have "\<forall>fila \<in> set ?M. \<forall>x \<in> set fila. 0 \<le> x \<and> x \<le> 35" by simp
  moreover have "int (length ?M) * 35 < 2 ^ 63" by simp
  ultimately have h4: "sin_desborde ?M" by (rule sin_desborde_acotada [OF h1 h2])
  have h5: "es_permutacion (length ?M) [2, 3, 1]" by code_simp
  have h6: "costo_ruta ?M (0 # [2, 3, 1] @ [0]) = 80" by code_simp
  have v: "tsp ?M = Inr (Some (0 # [1, 3, 2] @ [0]), Finita 80)" by code_simp
  from tsp_primero_gana [OF h1 h2 h3] h4 obtain p c where
    r: "tsp ?M = Inr (Some (0 # p @ [0]), Finita c)"
    and m: "\<forall>q. es_permutacion (length ?M) q \<and> costo_ruta ?M (0 # q @ [0]) = c \<longrightarrow> p \<le> q"
    by blast
  from r v have pc: "p = [1, 3, 2]" "c = 80" by simp_all
  with m h5 h6 have "p \<le> [2, 3, 1]" by blast
  with r pc h6 show ?thesis by blast
qed

text \<open>
  A square matrix of 64-bit integers on which the first route overflows: \<open>(0, 1, 2, 0)\<close>
  costs \<open>3 * 2^62\<close>, computed as \<open>-2^62\<close>, and is returned, although \<open>(0, 2, 1, 0)\<close>
  costs 12 and is the only route of minimum cost.
\<close>

theorem tsp_primero_gana_counterexample:
  "cuadrada [[0, 2 ^ 62, 4], [4, 0, 2 ^ 62], [2 ^ 62, 4, 0]] \<and>
   matriz_int64 [[0, 2 ^ 62, 4], [4, 0, 2 ^ 62], [2 ^ 62, 4, 0]] \<and>
   tsp [[0, 2 ^ 62, 4], [4, 0, 2 ^ 62], [2 ^ 62, 4, 0]]
     = Inr (Some (0 # [1, 2] @ [0]), Finita (- (2 ^ 62))) \<and>
   costo_ruta [[0, 2 ^ 62, 4], [4, 0, 2 ^ 62], [2 ^ 62, 4, 0]] (0 # [1, 2] @ [0]) = 3 * 2 ^ 62 \<and>
   es_permutacion 3 [2, 1] \<and>
   costo_ruta [[0, 2 ^ 62, 4], [4, 0, 2 ^ 62], [2 ^ 62, 4, 0]] (0 # [2, 1] @ [0]) = 12"
  by code_simp

lemma permutations_no_vacia: "\<exists>p resto. permutations pool = p # resto"
proof -
  have "pool \<in> set (permutations pool)" by (simp add: set_permutations)
  then show ?thesis by (cases "permutations pool") auto
qed

lemma columna_fuera:
  assumes "\<forall>fila \<in> set d. length fila = M" and "d \<noteq> []" and "M < length d"
    and "es_permutacion (length d) p"
  shows "distancia_total d (0 # p @ [0]) = Inl IndexError"
proof -
  let ?N = "length d"
  from assms(2) have N: "0 < ?N" by simp
  from set_ruta [OF assms(4) N] have "?N - 1 \<in> set (0 # p @ [0])"
    using N by simp
  moreover have "?N - 1 \<noteq> 0 \<or> ?N - 1 \<in> set (p @ [0])" by simp
  ultimately have "?N - 1 \<in> set (p @ [0])" by auto
  moreover have "length (0 # p) = length (p @ [0])" by simp
  ultimately obtain i where ij: "(i, ?N - 1) \<in> set (zip (0 # p) (p @ [0]))"
    by (metis in_set_impl_in_set_zip2)
  have "\<not> (i < length d \<and> ?N - 1 < length (d ! i))"
  proof
    assume h: "i < length d \<and> ?N - 1 < length (d ! i)"
    then have "d ! i \<in> set d" by simp
    with assms(1) have "length (d ! i) = M" by blast
    with h assms(3) show False by arith
  qed
  from indexar_error [OF ij this] show ?thesis
    by (simp add: distancia_total_def butlast_append)
qed

subsection \<open>No validation of the matrix\<close>

text \<open>
  Claim C7, as amended. The enumeration validates nothing. For a rectangular array of
  \<open>N\<close> rows and \<open>M\<close> columns it returns a route and a cost whenever \<open>N \<ge> 1\<close> and
  \<open>M \<ge> N\<close>, whatever the sign of the entries and also when \<open>M > N\<close>; it fails, with the
  \<open>IndexError\<close> of the array indexing, exactly when the array is empty or has fewer
  columns than rows.
\<close>

theorem tsp_sin_validacion:
  assumes "\<forall>fila \<in> set distancias. length fila = M"
  shows "(distancias \<noteq> [] \<and> length distancias \<le> M \<longrightarrow>
            (\<exists>ruta c. tsp distancias = Inr (Some ruta, Finita c))) \<and>
         (distancias = [] \<or> M < length distancias \<longrightarrow> tsp distancias = Inl IndexError)"
proof (intro conjI impI)
  assume h: "distancias \<noteq> [] \<and> length distancias \<le> M"
  with assms have "\<forall>fila \<in> set distancias. length distancias \<le> length fila" by simp
  from tsp_primero_minimo [OF _ this] h
  show "\<exists>ruta c. tsp distancias = Inr (Some ruta, Finita c)" by blast
next
  assume h: "distancias = [] \<or> M < length distancias"
  show "tsp distancias = Inl IndexError"
  proof (cases "distancias = []")
    case True
    then show ?thesis
      by (simp add: tsp_def permutations_def distancia_total_def elemento_def)
  next
    case False
    with h have M: "M < length distancias" by simp
    obtain p resto where pr: "permutations [1..<length distancias] = p # resto"
      using permutations_no_vacia by blast
    then have "p \<in> set (permutations [1..<length distancias])" by simp
    then have "es_permutacion (length distancias) p" by (simp only: set_permutations_upt)
    from columna_fuera [OF assms False M this] pr show ?thesis
      by (simp add: tsp_def Let_def)
  qed
qed

text \<open>
  A matrix with a negative entry and a matrix with more columns than rows both get a
  result; a matrix with fewer columns than rows and the empty matrix raise.
\<close>

theorem tsp_sin_validacion_witness:
  "(\<exists>ruta c. tsp [[0, - 1], [2, 0]] = Inr (Some ruta, Finita c)) \<and>
   (\<exists>ruta c. tsp [[0, 1, 7], [2, 0, 7]] = Inr (Some ruta, Finita c)) \<and>
   tsp [[0], [1]] = Inl IndexError \<and> tsp [] = Inl IndexError"
proof -
  have a: "\<forall>fila \<in> set [[0, - 1], [2, 0 :: int]]. length fila = 2" by simp
  have b: "\<forall>fila \<in> set [[0, 1, 7], [2, 0, 7 :: int]]. length fila = 3" by simp
  have c: "\<forall>fila \<in> set [[0], [1 :: int]]. length fila = 1" by simp
  have d: "\<forall>fila \<in> set ([] :: matriz). length fila = 0" by simp
  from tsp_sin_validacion [OF a] tsp_sin_validacion [OF b] tsp_sin_validacion [OF c]
    tsp_sin_validacion [OF d]
  show ?thesis by simp
qed

text \<open>
  A negative entry and a non-square matrix: the enumeration returns a result pair for each,
  where the claim has it fail.
\<close>

theorem tsp_sin_validacion_counterexample:
  "tsp [[0, - 1], [2, 0]] = Inr (Some [0, 1, 0], Finita 1) \<and>
   tsp [[0, 1, 7], [2, 0, 7]] = Inr (Some [0, 1, 0], Finita 3)"
  by code_simp

section \<open>Properties of the subset enumeration\<close>

lemma bit_seleccionado: "(drop_bit j i AND 1 \<noteq> 0) = bit (i :: nat) j"
  by (simp add: bit_iff_odd_drop_bit and_one_eq mod_2_eq_odd)

lemma evaluar_completo_eq:
  "evaluar_completo P objs i js (p, g, s) =
     (p + (\<Sum>j\<leftarrow>posiciones i js. peso_obj (objs ! j)),
      g + (\<Sum>j\<leftarrow>posiciones i js. P ! idx_obj (objs ! j)),
      s @ map (\<lambda>j. idx_obj (objs ! j)) (posiciones i js))"
proof (induction js arbitrary: p g s)
  case Nil
  then show ?case by (simp add: posiciones_def)
next
  case (Cons j js)
  show ?case
  proof (cases "drop_bit j i AND 1 \<noteq> 0")
    case True
    obtain a w k where o: "objs ! j = (a, w, k)" by (cases "objs ! j")
    with True Cons [of "p + w" "g + P ! k" "s @ [k]"] show ?thesis
      by (simp add: posiciones_def peso_obj_def idx_obj_def add.assoc)
  next
    case False
    with Cons [of p g s] show ?thesis
      by (simp add: posiciones_def)
  qed
qed


lemma evaluar_sin_corte:
  "fst (evaluar P objs C i js (p, g, s)) \<le> C \<Longrightarrow>
     evaluar P objs C i js (p, g, s) = evaluar_completo P objs i js (p, g, s)"
proof (induction js arbitrary: p g s)
  case Nil
  then show ?case by simp
next
  case (Cons j js)
  obtain a w k where o: "objs ! j = (a, w, k)" by (cases "objs ! j")
  show ?case
  proof (cases "drop_bit j i AND 1 \<noteq> 0")
    case True
    show ?thesis
    proof (cases "p + w > C")
      case True
      with \<open>drop_bit j i AND 1 \<noteq> 0\<close> o Cons.prems show ?thesis by simp
    next
      case False
      with True o Cons.prems Cons.IH [of "p + w" "g + P ! k" "s @ [k]"] show ?thesis
        by simp
    qed
  next
    case False
    with Cons.prems Cons.IH [of p g s] show ?thesis by simp
  qed
qed




lemma buscar_invariante:
  "\<exists>g c. buscar P objs C N pats (g0, c0) = (g, c) \<and> g0 \<le> g \<and>
     (\<forall>i \<in> set pats. fst (evaluar P objs C i [0..<N] (0, 0, [])) \<le> C \<longrightarrow>
        fst (snd (evaluar P objs C i [0..<N] (0, 0, []))) \<le> g) \<and>
     ((g, c) = (g0, c0) \<or>
      (\<exists>i \<in> set pats. fst (evaluar P objs C i [0..<N] (0, 0, [])) \<le> C \<and>
         g = fst (snd (evaluar P objs C i [0..<N] (0, 0, []))) \<and>
         c = Some (snd (snd (evaluar P objs C i [0..<N] (0, 0, [])))) \<and> g0 < g))"
proof (induction pats arbitrary: g0 c0)
  case Nil
  then show ?case by simp
next
  case (Cons i pats)
  obtain p t s where e: "evaluar P objs C i [0..<N] (0, 0, []) = (p, t, s)"
    by (cases "evaluar P objs C i [0..<N] (0, 0, [])")
  show ?case
  proof (cases "p \<le> C \<and> t > g0")
    case True
    from Cons.IH [of t "Some s"] obtain g c where
      r: "buscar P objs C N pats (t, Some s) = (g, c)" and le: "t \<le> g"
      and cota: "\<forall>i \<in> set pats. fst (evaluar P objs C i [0..<N] (0, 0, [])) \<le> C \<longrightarrow>
        fst (snd (evaluar P objs C i [0..<N] (0, 0, []))) \<le> g"
      and alc: "(g, c) = (t, Some s) \<or>
        (\<exists>i \<in> set pats. fst (evaluar P objs C i [0..<N] (0, 0, [])) \<le> C \<and>
           g = fst (snd (evaluar P objs C i [0..<N] (0, 0, []))) \<and>
           c = Some (snd (snd (evaluar P objs C i [0..<N] (0, 0, [])))) \<and> t < g)"
      by blast
    from True e r have "buscar P objs C N (i # pats) (g0, c0) = (g, c)" by simp
    moreover from True le have "g0 \<le> g" by simp
    moreover from e le cota have "\<forall>i \<in> set (i # pats).
        fst (evaluar P objs C i [0..<N] (0, 0, [])) \<le> C \<longrightarrow>
        fst (snd (evaluar P objs C i [0..<N] (0, 0, []))) \<le> g" by simp
    moreover from alc True e have "\<exists>i \<in> set (i # pats).
         fst (evaluar P objs C i [0..<N] (0, 0, [])) \<le> C \<and>
         g = fst (snd (evaluar P objs C i [0..<N] (0, 0, []))) \<and>
         c = Some (snd (snd (evaluar P objs C i [0..<N] (0, 0, [])))) \<and> g0 < g"
      by auto
    ultimately show ?thesis by blast
  next
    case False
    from Cons.IH [of g0 c0] obtain g c where
      r: "buscar P objs C N pats (g0, c0) = (g, c)" and le: "g0 \<le> g"
      and cota: "\<forall>i \<in> set pats. fst (evaluar P objs C i [0..<N] (0, 0, [])) \<le> C \<longrightarrow>
        fst (snd (evaluar P objs C i [0..<N] (0, 0, []))) \<le> g"
      and alc: "(g, c) = (g0, c0) \<or>
        (\<exists>i \<in> set pats. fst (evaluar P objs C i [0..<N] (0, 0, [])) \<le> C \<and>
           g = fst (snd (evaluar P objs C i [0..<N] (0, 0, []))) \<and>
           c = Some (snd (snd (evaluar P objs C i [0..<N] (0, 0, [])))) \<and> g0 < g)"
      by blast
    from False e r have "buscar P objs C N (i # pats) (g0, c0) = (g, c)" by auto
    moreover from e le cota False have "\<forall>i \<in> set (i # pats).
        fst (evaluar P objs C i [0..<N] (0, 0, [])) \<le> C \<longrightarrow>
        fst (snd (evaluar P objs C i [0..<N] (0, 0, []))) \<le> g" by auto
    moreover from alc have "(g, c) = (g0, c0) \<or> (\<exists>i \<in> set (i # pats).
         fst (evaluar P objs C i [0..<N] (0, 0, [])) \<le> C \<and>
         g = fst (snd (evaluar P objs C i [0..<N] (0, 0, []))) \<and>
         c = Some (snd (snd (evaluar P objs C i [0..<N] (0, 0, [])))) \<and> g0 < g)"
      by auto
    ultimately show ?thesis using le by blast
  qed
qed


lemma set_posiciones: "set (posiciones i [0..<N]) = {j. j < N \<and> bit i j}"
proof -
  have "posiciones i [0..<N] = filter (\<lambda>j. bit i j) [0..<N]"
    unfolding posiciones_def by (simp only: bit_seleccionado)
  then show ?thesis by auto
qed

lemma distinct_posiciones: "distinct (posiciones i [0..<N])"
  by (simp add: posiciones_def)


lemma listado_length: "es_listado P W objs \<Longrightarrow> length objs = length W"
  unfolding es_listado_def by (drule mset_eq_length) simp

lemma listado_idx:
  assumes "es_listado P W objs"
  shows "mset (map idx_obj objs) = mset [0..<length W]"
proof -
  have "map idx_obj (map (\<lambda>i. (P ! i, W ! i, i)) [0..<length W]) = [0..<length W]"
    by (simp add: idx_obj_def comp_def)
  moreover from assms have "mset (map idx_obj objs)
      = mset (map idx_obj (map (\<lambda>i. (P ! i, W ! i, i)) [0..<length W]))"
    unfolding es_listado_def by (simp only: mset_map)
  ultimately show ?thesis by simp
qed

lemma listado_elem:
  assumes "es_listado P W objs" and "x \<in> set objs"
  shows "idx_obj x < length W \<and> peso_obj x = W ! idx_obj x"
proof -
  from assms(1) have "set objs = set (map (\<lambda>i. (P ! i, W ! i, i)) [0..<length W])"
    unfolding es_listado_def by (rule mset_eq_setD)
  with assms(2) show ?thesis by (auto simp: idx_obj_def peso_obj_def)
qed

lemma listado_distinct: "es_listado P W objs \<Longrightarrow> distinct (map idx_obj objs)"
  by (metis listado_idx distinct_upt mset_eq_imp_distinct_iff)


lemma listado_inj:
  assumes "es_listado P W objs"
  shows "inj_on (\<lambda>j. idx_obj (objs ! j)) {..<length W}"
proof (rule inj_onI)
  fix a b assume a: "a \<in> {..<length W}" and b: "b \<in> {..<length W}"
    and eq: "idx_obj (objs ! a) = idx_obj (objs ! b)"
  from a b listado_length [OF assms] have l: "a < length (map idx_obj objs)" "b < length (map idx_obj objs)"
    by simp_all
  with eq have "map idx_obj objs ! a = map idx_obj objs ! b" by simp
  with listado_distinct [OF assms] l show "a = b"
    by (simp only: nth_eq_iff_index_eq)
qed

lemma seleccion_distinct:
  assumes "es_listado P W objs"
  shows "distinct (seleccion_de objs i (length W))"
proof -
  have "set (posiciones i [0..<length W]) \<subseteq> {..<length W}"
    by (auto simp: set_posiciones)
  with listado_inj [OF assms] have "inj_on (\<lambda>j. idx_obj (objs ! j)) (set (posiciones i [0..<length W]))"
    by (rule inj_on_subset)
  with distinct_posiciones show ?thesis
    unfolding seleccion_de_def by (simp add: distinct_map)
qed

lemma seleccion_rango:
  assumes "es_listado P W objs"
  shows "set (seleccion_de objs i (length W)) \<subseteq> {..<length W}"
proof
  fix k assume "k \<in> set (seleccion_de objs i (length W))"
  then obtain j where j: "j < length W" and k: "k = idx_obj (objs ! j)"
    by (auto simp: seleccion_de_def set_posiciones)
  from j listado_length [OF assms] have "objs ! j \<in> set objs" by simp
  with listado_elem [OF assms] k show "k \<in> {..<length W}" by simp
qed

lemma evaluar_completo_listado:
  assumes "es_listado P W objs"
  shows "evaluar_completo P objs i [0..<length W] (0, 0, []) =
           (peso_de W (set (seleccion_de objs i (length W))),
            ganancia_de P (set (seleccion_de objs i (length W))),
            seleccion_de objs i (length W))"
proof -
  let ?pos = "posiciones i [0..<length W]"
  let ?sel = "seleccion_de objs i (length W)"
  have pesos: "(\<Sum>j\<leftarrow>?pos. peso_obj (objs ! j)) = (\<Sum>k\<leftarrow>?sel. W ! k)"
  proof -
    have "map (\<lambda>j. peso_obj (objs ! j)) ?pos = map (\<lambda>j. W ! idx_obj (objs ! j)) ?pos"
    proof (rule map_cong [OF refl])
      fix j assume "j \<in> set ?pos"
      then have "j < length W" by (simp add: set_posiciones)
      with listado_length [OF assms] have "objs ! j \<in> set objs" by simp
      with listado_elem [OF assms] show "peso_obj (objs ! j) = W ! idx_obj (objs ! j)" by simp
    qed
    then have "(\<Sum>j\<leftarrow>?pos. peso_obj (objs ! j)) = (\<Sum>j\<leftarrow>?pos. W ! idx_obj (objs ! j))"
      by (rule arg_cong)
    also have "\<dots> = (\<Sum>k\<leftarrow>?sel. W ! k)"
      by (simp add: seleccion_de_def comp_def)
    finally show ?thesis .
  qed
  have gan: "(\<Sum>j\<leftarrow>?pos. P ! idx_obj (objs ! j)) = (\<Sum>k\<leftarrow>?sel. P ! k)"
    by (simp add: seleccion_de_def comp_def)
  from seleccion_distinct [OF assms] have
    "(\<Sum>k\<leftarrow>?sel. W ! k) = peso_de W (set ?sel)" "(\<Sum>k\<leftarrow>?sel. P ! k) = ganancia_de P (set ?sel)"
    unfolding peso_de_def ganancia_de_def by (simp_all add: sum_list_distinct_conv_sum_set)
  with pesos gan show ?thesis
    by (simp add: evaluar_completo_eq seleccion_de_def)
qed


subsection \<open>The ranking\<close>

lemma claves_ok:
  "\<forall>x \<in> set xs. peso_obj x \<noteq> 0 \<Longrightarrow> claves xs = Inr (map (\<lambda>x. fst x / peso_obj x) xs)"
proof (induction xs)
  case Nil
  then show ?case by simp
next
  case (Cons x xs)
  obtain a w k where x: "x = (a, w, k)" by (cases x)
  with Cons show ?case by (simp add: peso_obj_def)
qed

lemma claves_error:
  "x \<in> set xs \<Longrightarrow> peso_obj x = 0 \<Longrightarrow> claves xs = Inl ZeroDivisionError"
proof (induction xs)
  case Nil
  then show ?case by simp
next
  case (Cons y xs)
  obtain a w k where y: "y = (a, w, k)" by (cases y)
  show ?case
  proof (cases "w = 0")
    case True
    with y show ?thesis by simp
  next
    case False
    with Cons y have "claves xs = Inl ZeroDivisionError" by (auto simp: peso_obj_def)
    with False y show ?thesis by simp
  qed
qed

lemma claves_cases:
  "(claves xs = Inl ZeroDivisionError \<and> (\<exists>x \<in> set xs. peso_obj x = 0)) \<or>
   (claves xs = Inr (map (\<lambda>x. fst x / peso_obj x) xs) \<and> (\<forall>x \<in> set xs. peso_obj x \<noteq> 0))"
  using claves_ok [of xs] claves_error [of _ xs] by blast

lemma zip_map_self: "zip (map f xs) xs = map (\<lambda>x. (f x, x)) xs"
  by (induction xs) auto

lemma sorted_reverse_ok:
  assumes "\<forall>x \<in> set xs. peso_obj x \<noteq> 0"
  shows "\<exists>ys. sorted_reverse xs = Inr ys \<and> mset ys = mset xs \<and>
           sorted_wrt (\<lambda>x y. fst y / peso_obj y \<le> fst x / peso_obj x) ys"
proof -
  let ?r = "\<lambda>x :: objeto. fst x / peso_obj x"
  let ?zs = "sort_key (\<lambda>kx. - fst kx) (map (\<lambda>x. (?r x, x)) xs)"
  from claves_ok [OF assms] have res: "sorted_reverse xs = Inr (map snd ?zs)"
    by (simp add: sorted_reverse_def zip_map_self)
  have "mset (map snd ?zs) = image_mset snd (mset (map (\<lambda>x. (?r x, x)) xs))"
    by (simp only: mset_map mset_sort)
  then have m: "mset (map snd ?zs) = mset xs"
    by (simp add: image_mset.compositionality comp_def)
  have "sorted (map (\<lambda>kx. - fst kx) ?zs)" by (rule sorted_sort_key)
  moreover have "map (\<lambda>kx. - fst kx) ?zs = map (\<lambda>x. - ?r x) (map snd ?zs)"
  proof -
    have "\<forall>kx \<in> set ?zs. fst kx = ?r (snd kx)" by auto
    then show ?thesis by (simp add: comp_def)
  qed
  ultimately have "sorted (map (\<lambda>x. - ?r x) (map snd ?zs))" by simp
  then have "sorted_wrt (\<lambda>x y. ?r y \<le> ?r x) (map snd ?zs)"
    by (simp only: sorted_map neg_le_iff_le)
  with res m show ?thesis by blast
qed

lemma ordenar_ok:
  assumes "length W \<le> length P" and "0 \<notin> set W"
  shows "\<exists>objs. ordenar P W = Inr objs \<and> es_listado P W objs \<and>
           sorted_wrt (\<lambda>x y. fst y / peso_obj y \<le> fst x / peso_obj x) objs"
proof -
  let ?xs = "map (\<lambda>i. (P ! i, W ! i, i)) [0..<length W]"
  from assms(1) have l: "listar P W = Inr ?xs" by (simp add: listar_def)
  from assms(2) have "\<forall>x \<in> set ?xs. peso_obj x \<noteq> 0"
    by (auto simp: peso_obj_def) (metis nth_mem)
  from sorted_reverse_ok [OF this] l show ?thesis
    by (auto simp: ordenar_def es_listado_def)
qed

lemma ordenar_error:
  assumes "length W \<le> length P" and "0 \<in> set W"
  shows "ordenar P W = Inl ZeroDivisionError"
proof -
  let ?xs = "map (\<lambda>i. (P ! i, W ! i, i)) [0..<length W]"
  from assms(1) have l: "listar P W = Inr ?xs" by (simp add: listar_def)
  from assms(2) obtain i where "i < length W" "W ! i = 0" by (auto simp: in_set_conv_nth)
  then have "(P ! i, W ! i, i) \<in> set ?xs" "peso_obj (P ! i, W ! i, i) = 0"
    by (auto simp: peso_obj_def)
  from claves_error [OF this] l show ?thesis
    by (simp add: ordenar_def sorted_reverse_def)
qed

lemma ordenar_Inr:
  assumes "ordenar P W = Inr objs"
  shows "length W \<le> length P \<and> 0 \<notin> set W \<and> es_listado P W objs"
proof -
  from assms have l: "length W \<le> length P"
    by (auto simp: ordenar_def listar_def Let_def split: if_splits)
  have z: "0 \<notin> set W"
  proof
    assume "0 \<in> set W"
    from ordenar_error [OF l this] assms show False by simp
  qed
  from ordenar_ok [OF l z] assms show ?thesis using l z by auto
qed


subsection \<open>The search over all patterns\<close>


lemma buscar_registrado:
  assumes "es_listado P W objs"
    and "buscar P objs C (length W) pats (0, None) = (g, Some sel)"
  shows "0 < g \<and> distinct sel \<and> factible W C (set sel) \<and> ganancia_de P (set sel) = g"
proof -
  let ?N = "length W"
  let ?E = "\<lambda>i. evaluar P objs C i [0..<?N] (0, 0, [])"
  from buscar_invariante [of P objs C ?N pats 0 None] assms(2)
  obtain i where f: "fst (?E i) \<le> C" and g: "g = fst (snd (?E i))"
    and s: "sel = snd (snd (?E i))" and pos: "0 < g"
    by auto
  from evaluar_sin_corte [OF f] evaluar_completo_listado [OF assms(1)]
  have e: "?E i = (peso_de W (set (seleccion_de objs i ?N)),
                   ganancia_de P (set (seleccion_de objs i ?N)), seleccion_de objs i ?N)"
    by simp
  with s have sel: "sel = seleccion_de objs i ?N" by simp
  from e f g sel seleccion_distinct [OF assms(1), of i] seleccion_rango [OF assms(1), of i] pos
  show ?thesis by (simp add: factible_def)
qed








subsection \<open>Feasibility and optimality of the result\<close>




subsection \<open>The ranking does not change the result\<close>




subsection \<open>Early abandonment\<close>



subsection \<open>The ranking has no guard\<close>




subsection \<open>No items, or no capacity\<close>

text \<open>
  Claim C9, on the code. With no items, and with the capacity 0 and positive weights, the
  best value is 0 and \<open>mejor_combinacion\<close> is still \<open>None\<close>: the empty selection has the
  value 0, which is not greater than the initial best value, so it is never recorded. The
  last cell of the notebook then raises on \<open>sorted(None)\<close>.
\<close>

theorem mochila_vacia_sin_seleccion:
  "mochila [] [] 8 = Inr (0, None) \<and> mochila [1, 3] [2, 2] 0 = Inr (0, None) \<and>
   mostrar (0, None) = Inl TypeError"
  by code_simp

subsection \<open>The reported value is the value of the reported selection\<close>

text \<open>
  Claim C10. Whenever the search ends with a recorded combination, the best value is
  the sum of \<open>P[i]\<close> over the indices of the combination, and these indices are
  pairwise distinct and below \<open>N\<close>.
\<close>

theorem mochila_valor_alcanzado:
  assumes "mochila P W C = Inr (g, Some sel)"
  shows "g = (\<Sum>i\<leftarrow>sel. P ! i) \<and> distinct sel \<and> set sel \<subseteq> {..<length W}"
proof -
  from assms obtain objs where o: "ordenar P W = Inr objs"
    and b: "buscar P objs C (length W) [0..<push_bit (length W) 1] (0, None) = (g, Some sel)"
    by (auto simp: mochila_def Let_def split: sum.splits)
  from ordenar_Inr [OF o] have l: "es_listado P W objs" by simp
  from buscar_registrado [OF l b] have d: "distinct sel" and f: "factible W C (set sel)"
    and g: "ganancia_de P (set sel) = g" by simp_all
  from d g have "g = (\<Sum>i\<leftarrow>sel. P ! i)"
    by (simp add: ganancia_de_def sum_list_distinct_conv_sum_set)
  with d f show ?thesis by (simp add: factible_def)
qed

text \<open>The items of the notebook: \<open>22 = 7 + 5 + 10\<close>.\<close>

theorem mochila_valor_alcanzado_witness:
  "mochila [5, 7, 5, 4, 10] [2, 1, 3, 3 / 2, 4] 8 = Inr (22, Some [1, 0, 4]) \<and>
   (22 :: rat) = (\<Sum>i\<leftarrow>[1, 0, 4]. [5, 7, 5, 4, 10] ! i) \<and> distinct [1, 0, 4 :: nat] \<and>
   set [1, 0, 4] \<subseteq> {..<length [2, 1, 3, 3 / 2, 4 :: rat]}"
proof -
  have v: "mochila [5, 7, 5, 4, 10] [2, 1, 3, 3 / 2, 4] 8 = Inr (22, Some [1, 0, 4])"
    by code_simp
  from v mochila_valor_alcanzado [OF v] show ?thesis by (rule conjI)
qed

end
